theory Spec2Isabelle
  imports Main "HOL-Library.Sublist" "HOL-Library.AList"
begin

section \<open>JavaScript strings and arrays\<close>

text \<open>
  A JavaScript string is a sequence of code units. The model is over the code units
  U+0000 to U+00FF, one \<^typ>\<open>char\<close> each, so a \<^typ>\<open>string\<close> of HOL is a string
  of the program whose code units all lie in that range. \<open>length\<close> counts code
  units, as \<open>String.prototype.length\<close> does.
\<close>

definition toLowerCase_char :: "char \<Rightarrow> char" where
  \<comment> \<open>the lower-case mapping of Unicode on U+0000..U+00FF: A..Z, and U+00C0..U+00DE but the
      multiplication sign U+00D7, move up by 32\<close>
  "toLowerCase_char c =
     (let n = (of_char c :: nat) in
      if (65 \<le> n \<and> n \<le> 90) \<or> (192 \<le> n \<and> n \<le> 222 \<and> n \<noteq> 215)
      then char_of (n + 32) else c)"

definition toLowerCase :: "string \<Rightarrow> string" where
  "toLowerCase s = map toLowerCase_char s"

fun includes_str :: "string \<Rightarrow> string \<Rightarrow> bool" where
  \<comment> \<open>\<open>s.includes(t)\<close>: \<open>t\<close> occurs in \<open>s\<close> as a run of adjacent code units\<close>
  "includes_str [] t = (t = [])"
| "includes_str (c # s) t = (prefix t (c # s) \<or> includes_str s t)"

definition includes_arr :: "'a list \<Rightarrow> 'a \<Rightarrow> bool" where
  \<comment> \<open>\<open>xs.includes(x)\<close> on an array of strings\<close>
  "includes_arr xs x = (x \<in> set xs)"

fun splitBy :: "(char \<Rightarrow> bool) \<Rightarrow> string \<Rightarrow> string list" where
  \<comment> \<open>the pieces of a string between its separators; a string with \<open>k\<close> separators has
      \<open>k + 1\<close> pieces, some of them possibly empty (so the first branch of the inner
      \<open>case\<close> is never taken)\<close>
  "splitBy sep [] = [[]]"
| "splitBy sep (c # s) =
     (if sep c then [] # splitBy sep s
      else (case splitBy sep s of
              [] \<Rightarrow> [[c]]
            | w # ws \<Rightarrow> (c # w) # ws))"

definition split_space :: "string \<Rightarrow> string list" where
  \<comment> \<open>\<open>s.split(' ')\<close>: the separator is the one code unit U+0020\<close>
  "split_space s = splitBy (\<lambda>c. c = CHR '' '') s"

definition isWhiteSpace :: "char \<Rightarrow> bool" where
  \<comment> \<open>WhiteSpace and LineTerminator of ECMAScript within U+0000..U+00FF: TAB, LF, VT, FF, CR,
      SP and NBSP\<close>
  "isWhiteSpace c = (of_char c \<in> {9, 10, 11, 12, 13, 32, 160 :: nat})"

definition trim :: "string \<Rightarrow> string" where
  "trim s = rev (dropWhile isWhiteSpace (rev (dropWhile isWhiteSpace s)))"

definition Set_add :: "'a list \<Rightarrow> 'a \<Rightarrow> 'a list" where
  \<comment> \<open>\<open>Set.prototype.add\<close>, the set kept as the list of its elements in insertion order
      (the order \<open>Array.from\<close> reads them in)\<close>
  "Set_add s x = (if x \<in> set s then s else s @ [x])"

section \<open>Notes\<close>

record Related =
  id_rel :: int
  preview :: string

record Note =
  id_note :: int
  content :: string
  timestamp :: string
  tags :: "string list"
  related :: "Related list"

section \<open>Tag suggestion\<close>

definition keywords_obj :: "(string \<times> string list) list" where
  \<comment> \<open>the entries of the \<open>keywords\<close> object, in the order \<open>Object.entries\<close> lists them\<close>
  "keywords_obj =
     [(''meeting'', [''meetings'', ''work'']),
      (''task'', [''tasks'', ''todo'']),
      (''idea'', [''ideas'', ''creativity'']),
      (''research'', [''research'', ''learning'']),
      (''project'', [''projects'', ''work''])]"

definition suggestTags :: "string \<Rightarrow> string list" where
  "suggestTags content' =
     (let contentLower = toLowerCase content' in
      foldl (\<lambda>suggestedTags (keyword, tags').
               if includes_str contentLower keyword
               then foldl Set_add suggestedTags tags'
               else suggestedTags)
        [] keywords_obj)"

section \<open>Related notes\<close>

definition isRelated :: "string \<Rightarrow> Note \<Rightarrow> bool" where
  \<comment> \<open>the callback of the \<open>filter\<close> in \<open>findRelatedNotes\<close>\<close>
  "isRelated content' note =
     (let contentWords = split_space (toLowerCase content');
          noteWords = split_space (toLowerCase (content note));
          commonWords = filter (\<lambda>word. length word > 4 \<and> includes_arr noteWords word) contentWords
      in length commonWords > 0)"

definition toPreview :: "Note \<Rightarrow> Related" where
  \<comment> \<open>the callback of the \<open>map\<close> in \<open>findRelatedNotes\<close>\<close>
  "toPreview note = \<lparr>id_rel = id_note note, preview = take 100 (content note) @ ''...''\<rparr>"

definition findRelatedNotes :: "Note list \<Rightarrow> string \<Rightarrow> Related list" where
  "findRelatedNotes notes content' = map toPreview (take 3 (filter (isRelated content') notes))"

section \<open>The query filter\<close>

definition matchesQuery :: "string \<Rightarrow> string list \<Rightarrow> Note \<Rightarrow> bool" where
  \<comment> \<open>the callback of the \<open>filter\<close> that computes \<open>filteredNotes\<close>\<close>
  "matchesQuery searchQuery selectedTags note =
     (let matchesSearch = list_all (\<lambda>term'. includes_str (toLowerCase (content note)) term')
                            (split_space (toLowerCase searchQuery));
          matchesTags = (length selectedTags = 0 \<or>
                         list_ex (\<lambda>tag. includes_arr (tags note) tag) selectedTags)
      in matchesSearch \<and> matchesTags)"

definition filteredNotes :: "Note list \<Rightarrow> string \<Rightarrow> string list \<Rightarrow> Note list" where
  "filteredNotes notes searchQuery selectedTags = filter (matchesQuery searchQuery selectedTags) notes"

section \<open>JSON\<close>

text \<open>
  The values \<open>JSON.stringify\<close> writes and \<open>JSON.parse\<close> reads. A number of the
  model is an integer; it stands for a number of the program when its magnitude is at
  most \<open>Number.MAX_SAFE_INTEGER\<close>, the range in which a double holds every integer
  exactly. An object is the list of its properties in the order the program enumerates
  them, which for the property names used here is the order of insertion.
\<close>

datatype json =
    JNull
  | JBool bool
  | JNumber int
  | JString string
  | JArray "json list"
  | JObject "(string \<times> json) list"

datatype exception = SyntaxError

text \<open>
  How a call ends: it returns a value of the model, it throws, or it returns a value that is
  no value of the model (\<open>Unmodelled\<close>). \<open>JSON.parse\<close> ends so on a text of the
  JSON grammar that writes a number with a fraction or an exponent, an integer beyond the
  safe range, or an escape beyond U+00FF; the tokenizer and the automaton below never do.
\<close>

datatype 'a completion = Returns 'a | Throws exception | Unmodelled

definition dquote :: char where "dquote = CHR 0x22"

definition backslash :: char where "backslash = CHR 0x5C"

definition MAX_SAFE_INTEGER :: int where
  "MAX_SAFE_INTEGER = 2 ^ 53 - 1"

subsection \<open>JSON.stringify\<close>

definition hexDigit :: "nat \<Rightarrow> char" where
  \<comment> \<open>the digit of a value below 16\<close>
  "hexDigit d = ''0123456789abcdef'' ! d"

definition QuoteJSONChar :: "char \<Rightarrow> string" where
  \<comment> \<open>one code unit inside a string literal: the short escapes, \<open>\u00XX\<close> for the other
      control characters, and every other code unit as it is\<close>
  "QuoteJSONChar c =
     (let n = (of_char c :: nat) in
      if n = 8 then [backslash, CHR ''b'']
      else if n = 9 then [backslash, CHR ''t'']
      else if n = 10 then [backslash, CHR ''n'']
      else if n = 12 then [backslash, CHR ''f'']
      else if n = 13 then [backslash, CHR ''r'']
      else if c = dquote then [backslash, dquote]
      else if c = backslash then [backslash, backslash]
      else if n < 32 then [backslash, CHR ''u'', CHR ''0'', CHR ''0'', hexDigit (n div 16), hexDigit (n mod 16)]
      else [c])"

definition QuoteJSONString :: "string \<Rightarrow> string" where
  "QuoteJSONString s = dquote # concat (map QuoteJSONChar s) @ [dquote]"

function digitsOf :: "int \<Rightarrow> string" where
  \<comment> \<open>the decimal digits of a non-negative integer, without leading zeros\<close>
  "digitsOf n = (if n < 10 then [char_of (48 + n)] else digitsOf (n div 10) @ [char_of (48 + n mod 10)])"
  by pat_completeness auto
termination
  by (relation "measure nat") auto

definition NumberToString :: "int \<Rightarrow> string" where
  "NumberToString i = (if i < 0 then CHR ''-'' # digitsOf (- i) else digitsOf i)"

fun join :: "'a list \<Rightarrow> 'a list list \<Rightarrow> 'a list" where
  \<comment> \<open>the items, with the separator between each two\<close>
  "join sep [] = []"
| "join sep [x] = x"
| "join sep (x # y # ys) = x @ sep @ join sep (y # ys)"

fun JSON_stringify :: "json \<Rightarrow> string" where
  \<comment> \<open>\<open>JSON.stringify(value)\<close> with one argument: no indentation, no replacer\<close>
  "JSON_stringify JNull = ''null''"
| "JSON_stringify (JBool b) = (if b then ''true'' else ''false'')"
| "JSON_stringify (JNumber n) = NumberToString n"
| "JSON_stringify (JString s) = QuoteJSONString s"
| "JSON_stringify (JArray vs) = ''['' @ join '','' (map JSON_stringify vs) @ '']''"
| "JSON_stringify (JObject ms) =
     ''{'' @ join '','' (map (\<lambda>m. QuoteJSONString (fst m) @ '':'' @ JSON_stringify (snd m)) ms) @ ''}''"

subsection \<open>JSON.parse\<close>

text \<open>
  \<open>JSON.parse(text)\<close> with one argument, in two passes: the text is cut into tokens,
  and the tokens are read by a pushdown automaton whose stack holds the arrays and
  objects that are still open. A text that is not of the JSON grammar throws
  \<open>SyntaxError\<close>, whatever its literals are. A string or a number whose value is not
  in the model is a token of its own.
\<close>

datatype token =
    TLBracket | TRBracket | TLBrace | TRBrace | TComma | TColon
  | TString string | TStringOther | TNumber int | TNumberOther | TTrue | TFalse | TNull

definition isJSONWhiteSpace :: "char \<Rightarrow> bool" where
  \<comment> \<open>TAB, LF, CR and SP\<close>
  "isJSONWhiteSpace c = (of_char c \<in> {9, 10, 13, 32 :: nat})"

definition isDigit :: "char \<Rightarrow> bool" where
  "isDigit c = (48 \<le> (of_char c :: nat) \<and> (of_char c :: nat) \<le> 57)"

definition digitsVal :: "string \<Rightarrow> int" where
  "digitsVal ds = foldl (\<lambda>acc d. 10 * acc + (of_char d - 48)) 0 ds"

definition hexVal :: "char \<Rightarrow> nat option" where
  "hexVal c =
     (let n = (of_char c :: nat) in
      if 48 \<le> n \<and> n \<le> 57 then Some (n - 48)
      else if 97 \<le> n \<and> n \<le> 102 then Some (n - 87)
      else if 65 \<le> n \<and> n \<le> 70 then Some (n - 55)
      else None)"

definition unescape :: "char \<Rightarrow> char option" where
  \<comment> \<open>the code unit a one-letter escape stands for\<close>
  "unescape e =
     (if e = dquote then Some dquote
      else if e = backslash then Some backslash
      else if e = CHR ''/'' then Some CHR ''/''
      else if e = CHR ''b'' then Some (CHR 0x08)
      else if e = CHR ''f'' then Some (CHR 0x0C)
      else if e = CHR ''n'' then Some (CHR 0x0A)
      else if e = CHR ''r'' then Some (CHR 0x0D)
      else if e = CHR ''t'' then Some (CHR 0x09)
      else None)"

definition cons_char :: "char option \<Rightarrow> (char option list \<times> string) completion \<Rightarrow> (char option list \<times> string) completion" where
  "cons_char u r =
     (case r of
        Returns (us, rest) \<Rightarrow> Returns (u # us, rest)
      | Throws e \<Rightarrow> Throws e
      | Unmodelled \<Rightarrow> Unmodelled)"

fun lex_string :: "string \<Rightarrow> (char option list \<times> string) completion" where
  \<comment> \<open>a string literal after its opening quote: the code units it denotes (\<open>None\<close> for one
      beyond U+00FF, written as an escape), and the text after its closing quote\<close>
  "lex_string [] = Throws SyntaxError"
| "lex_string (c # cs) =
     (if c = dquote then Returns ([], cs)
      else if c = backslash then
        (case cs of
           [] \<Rightarrow> Throws SyntaxError
         | e # r \<Rightarrow>
             if e = CHR ''u'' then
               (case r of
                  h1 # h2 # h3 # h4 # r' \<Rightarrow>
                    (case (hexVal h1, hexVal h2, hexVal h3, hexVal h4) of
                       (Some a, Some b, Some c', Some d) \<Rightarrow>
                         cons_char (if a = 0 \<and> b = 0 then Some (char_of (16 * c' + d)) else None)
                           (lex_string r')
                     | _ \<Rightarrow> Throws SyntaxError)
                | _ \<Rightarrow> Throws SyntaxError)
             else
               (case unescape e of
                  None \<Rightarrow> Throws SyntaxError
                | Some x \<Rightarrow> cons_char (Some x) (lex_string r)))
      else if (of_char c :: nat) < 32 then Throws SyntaxError
      else cons_char (Some c) (lex_string cs))"

definition string_token :: "char option list \<Rightarrow> token" where
  "string_token us = (case those us of Some s \<Rightarrow> TString s | None \<Rightarrow> TStringOther)"

definition lex_fraction :: "string \<Rightarrow> (bool \<times> string) option" where
  \<comment> \<open>an optional fraction, a point and at least one digit: whether it is there, and the
      text after it; \<open>None\<close> for a point without a digit\<close>
  "lex_fraction r =
     (if r \<noteq> [] \<and> hd r = CHR ''.'' then
        (if takeWhile isDigit (tl r) = [] then None else Some (True, dropWhile isDigit (tl r)))
      else Some (False, r))"

definition lex_exponent :: "string \<Rightarrow> (bool \<times> string) option" where
  \<comment> \<open>an optional exponent, \<open>e\<close> or \<open>E\<close>, an optional sign and at least one digit\<close>
  "lex_exponent r =
     (if r \<noteq> [] \<and> hd r \<in> {CHR ''e'', CHR ''E''} then
        (let r' = (if tl r \<noteq> [] \<and> hd (tl r) \<in> {CHR ''+'', CHR ''-''} then tl (tl r) else tl r)
         in if takeWhile isDigit r' = [] then None else Some (True, dropWhile isDigit r'))
      else Some (False, r))"

definition lex_number :: "string \<Rightarrow> (token \<times> string) completion" where
  \<comment> \<open>a number of the JSON grammar: an optional minus sign, digits without a leading zero
      before another digit, an optional fraction and an optional exponent; and the text
      after it\<close>
  "lex_number s =
     (let neg = (s \<noteq> [] \<and> hd s = CHR ''-'');
          r = (if neg then tl s else s);
          ds = takeWhile isDigit r
      in if ds = [] then Throws SyntaxError
         else if hd ds = CHR ''0'' \<and> tl ds \<noteq> [] then Throws SyntaxError
         else (case lex_fraction (dropWhile isDigit r) of
                 None \<Rightarrow> Throws SyntaxError
               | Some (hasFrac, r2) \<Rightarrow>
                   (case lex_exponent r2 of
                      None \<Rightarrow> Throws SyntaxError
                    | Some (hasExp, rest) \<Rightarrow>
                        if hasFrac \<or> hasExp \<or> digitsVal ds > MAX_SAFE_INTEGER
                        then Returns (TNumberOther, rest)
                        else Returns (TNumber (if neg then - digitsVal ds else digitsVal ds), rest))))"

definition cons_token :: "token \<Rightarrow> token list completion \<Rightarrow> token list completion" where
  "cons_token t r =
     (case r of
        Returns ts \<Rightarrow> Returns (t # ts)
      | Throws e \<Rightarrow> Throws e
      | Unmodelled \<Rightarrow> Unmodelled)"

lemma lex_string_length: "lex_string s = Returns (x, rest) \<Longrightarrow> length rest < length s"
proof (induction s arbitrary: x rule: lex_string.induct)
  case 1
  then show ?case by simp
next
  case (2 c cs)
  then show ?case
    by (auto simp: cons_char_def split: if_splits list.splits option.splits completion.splits prod.splits)
      fastforce+
qed

lemma lex_fraction_length: "lex_fraction r = Some (b, r2) \<Longrightarrow> length r2 \<le> length r"
  using length_dropWhile_le[of isDigit "tl r"]
  by (auto simp: lex_fraction_def split: if_splits)

lemma lex_exponent_length: "lex_exponent r = Some (b, r2) \<Longrightarrow> length r2 \<le> length r"
  using length_dropWhile_le[of isDigit "tl r"] length_dropWhile_le[of isDigit "tl (tl r)"]
  by (auto simp: lex_exponent_def Let_def split: if_splits)

lemma lex_number_length: "lex_number s = Returns (t, rest) \<Longrightarrow> length rest < length s"
proof -
  assume a: "lex_number s = Returns (t, rest)"
  define r where "r = (if s \<noteq> [] \<and> hd s = CHR ''-'' then tl s else s)"
  from a have ds: "takeWhile isDigit r \<noteq> []"
    unfolding lex_number_def Let_def r_def[symmetric] by (simp split: if_splits)
  from a ds obtain b1 r2 b2 where f: "lex_fraction (dropWhile isDigit r) = Some (b1, r2)"
    and e: "lex_exponent r2 = Some (b2, rest)"
    unfolding lex_number_def Let_def r_def[symmetric]
    by (auto split: if_splits option.splits prod.splits)
  have "length (takeWhile isDigit r) + length (dropWhile isDigit r) = length r"
    by (metis length_append takeWhile_dropWhile_id)
  with ds have "length (dropWhile isDigit r) < length r" by (cases "takeWhile isDigit r") auto
  moreover have "length r \<le> length s" unfolding r_def by simp
  ultimately show ?thesis using lex_fraction_length[OF f] lex_exponent_length[OF e] by simp
qed

function lex :: "string \<Rightarrow> token list completion" where
  "lex [] = Returns []"
| "lex (c # cs) =
     (if isJSONWhiteSpace c then lex cs
      else if c = CHR ''['' then cons_token TLBracket (lex cs)
      else if c = CHR '']'' then cons_token TRBracket (lex cs)
      else if c = CHR ''{'' then cons_token TLBrace (lex cs)
      else if c = CHR ''}'' then cons_token TRBrace (lex cs)
      else if c = CHR '','' then cons_token TComma (lex cs)
      else if c = CHR '':'' then cons_token TColon (lex cs)
      else if c = dquote then
        (case lex_string cs of
           Returns (us, rest) \<Rightarrow> cons_token (string_token us) (lex rest)
         | Throws e \<Rightarrow> Throws e
         | Unmodelled \<Rightarrow> Unmodelled)
      else if c = CHR ''-'' \<or> isDigit c then
        (case lex_number (c # cs) of
           Returns (t, rest) \<Rightarrow> cons_token t (lex rest)
         | Throws e \<Rightarrow> Throws e
         | Unmodelled \<Rightarrow> Unmodelled)
      else if prefix ''true'' (c # cs) then cons_token TTrue (lex (drop 3 cs))
      else if prefix ''false'' (c # cs) then cons_token TFalse (lex (drop 4 cs))
      else if prefix ''null'' (c # cs) then cons_token TNull (lex (drop 3 cs))
      else Throws SyntaxError)"
  by pat_completeness auto
termination
proof (relation "measure length")
  fix c cs x2 x y
  assume "lex_string cs = Returns x2" "(x, y) = x2"
  then show "(y, c # cs) \<in> measure length"
    using lex_string_length[of cs x y] by simp
next
  fix c cs x2 x y
  assume "lex_number (c # cs) = Returns x2" "(x, y) = x2"
  then show "(y, c # cs) \<in> measure length"
    using lex_number_length[of "c # cs" x y] by simp
qed auto

text \<open>
  A frame of the stack is an open array with the elements read so far, or an open object
  with the properties read so far and the name of the property whose value is being
  read.
\<close>

datatype frame = InArr "json list" | InObj "(string \<times> json) list" string

datatype pstate =
    ExpValue "frame list"
  | ArrStart "frame list"
  | AfterElem "json list" "frame list"
  | ObjStart "frame list"
  | ExpKey "(string \<times> json) list" "frame list"
  | ExpColon "(string \<times> json) list" string "frame list"
  | AfterMember "(string \<times> json) list" "frame list"
  | Done json

fun deliver :: "json \<Rightarrow> frame list \<Rightarrow> pstate" where
  \<comment> \<open>a value is complete: it is the result, the next element of the innermost open array, or
      the value of the pending property (a repeated name keeps its place and takes the new
      value)\<close>
  "deliver v [] = Done v"
| "deliver v (InArr vs # st) = AfterElem (vs @ [v]) st"
| "deliver v (InObj ms k # st) = AfterMember (AList.update k v ms) st"

fun start_value :: "token \<Rightarrow> frame list \<Rightarrow> pstate option" where
  "start_value TLBracket st = Some (ArrStart st)"
| "start_value TLBrace st = Some (ObjStart st)"
| "start_value (TString s) st = Some (deliver (JString s) st)"
| "start_value (TNumber n) st = Some (deliver (JNumber n) st)"
| "start_value TTrue st = Some (deliver (JBool True) st)"
| "start_value TFalse st = Some (deliver (JBool False) st)"
| "start_value TNull st = Some (deliver JNull st)"
| "start_value _ st = None"

fun step :: "pstate \<Rightarrow> token \<Rightarrow> pstate option" where
  "step (ExpValue st) t = start_value t st"
| "step (ArrStart st) t =
     (if t = TRBracket then Some (deliver (JArray []) st) else start_value t (InArr [] # st))"
| "step (AfterElem vs st) t =
     (if t = TComma then Some (ExpValue (InArr vs # st))
      else if t = TRBracket then Some (deliver (JArray vs) st)
      else None)"
| "step (ObjStart st) t =
     (case t of
        TRBrace \<Rightarrow> Some (deliver (JObject []) st)
      | TString k \<Rightarrow> Some (ExpColon [] k st)
      | _ \<Rightarrow> None)"
| "step (ExpKey ms st) t = (case t of TString k \<Rightarrow> Some (ExpColon ms k st) | _ \<Rightarrow> None)"
| "step (ExpColon ms k st) t = (if t = TColon then Some (ExpValue (InObj ms k # st)) else None)"
| "step (AfterMember ms st) t =
     (if t = TComma then Some (ExpKey ms st)
      else if t = TRBrace then Some (deliver (JObject ms) st)
      else None)"
| "step (Done v) t = None"

fun run :: "pstate \<Rightarrow> token list \<Rightarrow> json completion" where
  "run s [] = (case s of Done v \<Rightarrow> Returns v | _ \<Rightarrow> Throws SyntaxError)"
| "run s (t # ts) = (case step s t of None \<Rightarrow> Throws SyntaxError | Some s' \<Rightarrow> run s' ts)"

definition modelled :: "token \<Rightarrow> bool" where
  "modelled t = (t \<noteq> TStringOther \<and> t \<noteq> TNumberOther)"

definition erase :: "token \<Rightarrow> token" where
  \<comment> \<open>in the grammar a literal stands for its kind only: a string or a number with no value in
      the model is read as a string or a number\<close>
  "erase t = (if t = TStringOther then TString [] else if t = TNumberOther then TNumber 0 else t)"

definition JSON_parse :: "string \<Rightarrow> json completion" where
  "JSON_parse text' =
     (case lex text' of
        Returns ts \<Rightarrow>
          (case run (ExpValue []) (map erase ts) of
             Returns v \<Rightarrow> if list_all modelled ts then Returns v else Unmodelled
           | Throws e \<Rightarrow> Throws e
           | Unmodelled \<Rightarrow> Unmodelled)
      | Throws e \<Rightarrow> Throws e
      | Unmodelled \<Rightarrow> Unmodelled)"

subsection \<open>The tokens of a value\<close>

text \<open>
  What the round trip is stated with: the tokens \<open>JSON.stringify\<close> writes for a value,
  the values both functions describe (every number within the safe range, no property
  name twice in an object), and the texts that may follow a value.
\<close>

fun tokens_of :: "json \<Rightarrow> token list" where
  "tokens_of JNull = [TNull]"
| "tokens_of (JBool b) = [if b then TTrue else TFalse]"
| "tokens_of (JNumber n) = [TNumber n]"
| "tokens_of (JString s) = [TString s]"
| "tokens_of (JArray vs) = [TLBracket] @ join [TComma] (map tokens_of vs) @ [TRBracket]"
| "tokens_of (JObject ms) =
     [TLBrace] @ join [TComma] (map (\<lambda>m. [TString (fst m), TColon] @ tokens_of (snd m)) ms) @ [TRBrace]"

fun wf_json :: "json \<Rightarrow> bool" where
  "wf_json JNull = True"
| "wf_json (JBool b) = True"
| "wf_json (JNumber n) = (\<bar>n\<bar> \<le> MAX_SAFE_INTEGER)"
| "wf_json (JString s) = True"
| "wf_json (JArray vs) = list_all wf_json vs"
| "wf_json (JObject ms) = (distinct (map fst ms) \<and> list_all (\<lambda>m. wf_json (snd m)) ms)"

definition value_end :: "string \<Rightarrow> bool" where
  \<comment> \<open>the end of the text, a comma or a closing bracket\<close>
  "value_end rest = (rest = [] \<or> hd rest \<in> {CHR '','', CHR '']'', CHR ''}''})"

definition prepend_tokens :: "token list \<Rightarrow> token list completion \<Rightarrow> token list completion" where
  "prepend_tokens ts r = foldr cons_token ts r"

section \<open>The note store\<close>

text \<open>
  \<open>localStorage\<close> is a map from keys to strings, and the console the list of what was
  reported to it. A note of the program is the object its literal builds; the array of
  notes is the value \<open>saveNotes\<close> is given.
\<close>

type_synonym Storage = "string \<rightharpoonup> string"

definition STORAGE_KEY :: string where
  "STORAGE_KEY = ''thoughtflow_notes''"

definition getItem :: "Storage \<Rightarrow> string \<Rightarrow> string option" where
  \<comment> \<open>\<open>null\<close> for a key that is not there\<close>
  "getItem storage k = storage k"

definition setItem :: "Storage \<Rightarrow> string \<Rightarrow> string \<Rightarrow> Storage" where
  "setItem storage k v = storage(k \<mapsto> v)"

definition Related_to_json :: "Related \<Rightarrow> json" where
  "Related_to_json r = JObject [(''id'', JNumber (id_rel r)), (''preview'', JString (preview r))]"

definition Note_to_json :: "Note \<Rightarrow> json" where
  "Note_to_json n =
     JObject [(''id'', JNumber (id_note n)),
              (''content'', JString (content n)),
              (''timestamp'', JString (timestamp n)),
              (''tags'', JArray (map JString (tags n))),
              (''related'', JArray (map Related_to_json (related n)))]"

definition Notes_to_json :: "Note list \<Rightarrow> json" where
  "Notes_to_json ns = JArray (map Note_to_json ns)"

definition wf_Note :: "Note \<Rightarrow> bool" where
  \<comment> \<open>the ids are numbers that hold their integer exactly\<close>
  "wf_Note n = (\<bar>id_note n\<bar> \<le> MAX_SAFE_INTEGER
                \<and> list_all (\<lambda>r. \<bar>id_rel r\<bar> \<le> MAX_SAFE_INTEGER) (related n))"

definition loadNotes :: "Storage \<Rightarrow> (string \<times> exception) list \<Rightarrow> json completion \<times> (string \<times> exception) list" where
  \<comment> \<open>the result, and the console after the call; the empty string is falsy, as \<open>null\<close> is.
      The \<open>catch\<close> takes every throw of \<open>JSON.parse\<close>; what \<open>JSON.parse\<close> returns is
      returned, also when it is no value of the model\<close>
  "loadNotes storage console =
     (case getItem storage STORAGE_KEY of
        None \<Rightarrow> (Returns (JArray []), console)
      | Some saved \<Rightarrow>
          if saved = [] then (Returns (JArray []), console)
          else (case JSON_parse saved of
                  Returns v \<Rightarrow> (Returns v, console)
                | Throws e \<Rightarrow> (Returns (JArray []), console @ [(''Error loading notes:'', e)])
                | Unmodelled \<Rightarrow> (Unmodelled, console)))"

definition saveNotes :: "json \<Rightarrow> Storage \<Rightarrow> Storage" where
  "saveNotes notes storage = setItem storage STORAGE_KEY (JSON_stringify notes)"

section \<open>The component\<close>

text \<open>
  The state of \<open>NoteApp\<close> that the store logic reads and writes: three of its state
  variables, the delays of the timeouts it has set, and \<open>localStorage\<close>.
  \<open>handleNoteSave\<close> reads the clock twice, for \<open>Date.now()\<close> and for
  \<open>new Date().toISOString()\<close>; both readings are arguments here.
\<close>

record App =
  "notes" :: "Note list"
  currentNote :: string
  showSuggestions :: bool
  timeouts :: "nat list"
  localStorage :: Storage

definition handleNoteSave :: "int \<Rightarrow> string \<Rightarrow> App \<Rightarrow> App" where
  "handleNoteSave now isoString st =
     (if trim (currentNote st) \<noteq> [] then
        let suggestedTags = suggestTags (currentNote st);
            relatedNotes = findRelatedNotes (notes st) (currentNote st);
            newNote = \<lparr>id_note = now, content = currentNote st, timestamp = isoString,
                       tags = suggestedTags, related = relatedNotes\<rparr>
        in st\<lparr>notes := newNote # notes st, currentNote := [], showSuggestions := True,
               timeouts := timeouts st @ [3000]\<rparr>
      else st)"

definition notesEffect :: "App \<Rightarrow> App" where
  \<comment> \<open>the effect with the dependency \<open>[notes]\<close>\<close>
  "notesEffect st = st\<lparr>localStorage := saveNotes (Notes_to_json (notes st)) (localStorage st)\<rparr>"

definition onSave :: "int \<Rightarrow> string \<Rightarrow> App \<Rightarrow> App" where
  \<comment> \<open>the handler, then the effects of the render it causes: the effect runs when \<open>notes\<close>
      has changed\<close>
  "onSave now isoString st =
     (let st' = handleNoteSave now isoString st
      in if notes st' \<noteq> notes st then notesEffect st' else st')"

datatype event = Typing string | Save int string

fun dispatch :: "event \<Rightarrow> App \<Rightarrow> App" where
  \<comment> \<open>typing into the text area sets \<open>currentNote\<close>; the save button and Shift+Enter call the
      handler\<close>
  "dispatch (Typing s) st = st\<lparr>currentNote := s\<rparr>"
| "dispatch (Save now isoString) st = onSave now isoString st"

definition session :: "event list \<Rightarrow> App \<Rightarrow> App" where
  "session evs st = foldl (\<lambda>s e. dispatch e s) st evs"

fun saveClocks :: "string \<Rightarrow> event list \<Rightarrow> int list" where
  \<comment> \<open>the values \<open>Date.now()\<close> returns in a session that starts with the given current
      note: the handler reads the clock only when the current note is not blank, and then
      clears the note\<close>
  "saveClocks cur [] = []"
| "saveClocks cur (Typing s # evs) = saveClocks s evs"
| "saveClocks cur (Save now isoString # evs) =
     (if trim cur \<noteq> [] then now # saveClocks [] evs else saveClocks cur evs)"

section \<open>The specification's reading of words and terms\<close>

text \<open>
  The specification splits the search phrase and the contents on whitespace. These
  definitions follow its words, to be compared with the program's.
\<close>

definition split_whitespace :: "string \<Rightarrow> string list" where
  "split_whitespace s = splitBy isWhiteSpace s"

definition spec_matchesQuery :: "string \<Rightarrow> string list \<Rightarrow> Note \<Rightarrow> bool" where
  "spec_matchesQuery searchPhrase selectedTags note =
     ((\<forall>t \<in> set (split_whitespace (toLowerCase searchPhrase)). sublist t (toLowerCase (content note)))
      \<and> (set selectedTags = {} \<or> set (tags note) \<inter> set selectedTags \<noteq> {}))"

definition spec_filter :: "Note list \<Rightarrow> string \<Rightarrow> string list \<Rightarrow> Note list" where
  "spec_filter ns searchPhrase selectedTags = filter (spec_matchesQuery searchPhrase selectedTags) ns"

definition spec_isRelated :: "string \<Rightarrow> Note \<Rightarrow> bool" where
  "spec_isRelated content' note =
     (\<exists>w \<in> set (split_whitespace (toLowerCase content')).
        length w > 4 \<and> w \<in> set (split_whitespace (toLowerCase (content note))))"

definition spec_findRelated :: "string \<Rightarrow> Note list \<Rightarrow> Related list" where
  "spec_findRelated content' corpus = map toPreview (take 3 (filter (spec_isRelated content') corpus))"

section \<open>Example data\<close>

definition fruit_notes :: "Note list" where
  "fruit_notes =
     [\<lparr>id_note = 1, content = ''apples oranges'', timestamp = '''', tags = [''fruit''], related = []\<rparr>,
      \<lparr>id_note = 2, content = ''bananas'', timestamp = '''', tags = [''fruit''], related = []\<rparr>]"

definition tab_phrase :: string where
  \<comment> \<open>a, TAB, b\<close>
  "tab_phrase = [CHR ''a'', CHR 0x09, CHR ''b'']"

definition ab_note :: Note where
  "ab_note = \<lparr>id_note = 1, content = ''a b'', timestamp = '''', tags = [], related = []\<rparr>"

definition elephant_note :: Note where
  "elephant_note =
     \<lparr>id_note = 5, content = ''elephants are huge'', timestamp = '''', tags = [], related = []\<rparr>"

definition newline_content :: string where
  \<comment> \<open>two lines: elephants, are\<close>
  "newline_content = ''elephants'' @ [CHR 0x0A] @ ''are''"

definition elephant_corpus :: "Note list" where
  "elephant_corpus = map (\<lambda>i. elephant_note\<lparr>id_note := i\<rparr>) [14, 13, 12, 11]"

definition empty_app :: App where
  "empty_app = \<lparr>notes = [], currentNote = [], showSuggestions = False, timeouts = [],
                localStorage = Map.empty\<rparr>"

definition blank_app :: App where
  "blank_app = \<lparr>notes = fruit_notes, currentNote = [CHR '' '', CHR 0x09, CHR 0x0A, CHR 0xA0],
                showSuggestions = False, timeouts = [], localStorage = Map.empty\<rparr>"

definition stocked_app :: App where
  "stocked_app = \<lparr>notes = fruit_notes, currentNote = [], showSuggestions = False, timeouts = [],
                  localStorage = Map.empty\<rparr>"

definition same_clock_session :: "event list" where
  "same_clock_session = [Typing ''a'', Save 1000 ''t'', Typing ''b'', Save 1000 ''t'']"

definition rising_clock_session :: "event list" where
  "rising_clock_session =
     [Typing ''first idea'', Save 1000 ''t'', Save 5 ''t'', Typing '' '', Save 7 ''t'',
      Typing ''second'', Save 1001 ''t'']"

definition unparseable_texts :: "string list" where
  "unparseable_texts = [''{broken'', ''[1.5'', ''1.'', ''1e'', ''[1,2,,3.0]'']"

definition saved_notes :: "Note list" where
  "saved_notes =
     [\<lparr>id_note = 1700000000000, content = ''Team meeting: say '' @ [dquote] @ ''hi'' @ [dquote, CHR 0x0A] @ ''to all'',
       timestamp = ''2023-11-14T22:13:20.000Z'', tags = [''meetings'', ''work''],
       related = [\<lparr>id_rel = 5, preview = ''elephants are huge...''\<rparr>]\<rparr>,
      elephant_note]"

section \<open>Properties of the string functions\<close>

lemma includes_str_sublist: "includes_str s t = sublist t s"
  by (induction s) (simp_all add: sublist_Cons_right)

lemma includes_str_iff: "includes_str s t \<longleftrightarrow> (\<exists>ps ss. s = ps @ t @ ss)"
  by (simp add: includes_str_sublist sublist_def)

lemma includes_str_empty: "includes_str s []"
  by (simp add: includes_str_sublist)

lemma splitBy_not_Nil: "splitBy sep s \<noteq> []"
  by (induction s) (auto split: list.splits)

section \<open>Properties of tag suggestion\<close>

lemma Set_add_set: "set (Set_add s x) = insert x (set s)"
  by (auto simp: Set_add_def)

lemma Set_add_distinct: "distinct s \<Longrightarrow> distinct (Set_add s x)"
  by (simp add: Set_add_def)

lemma foldl_Set_add_set: "set (foldl Set_add s xs) = set s \<union> set xs"
  by (induction xs arbitrary: s) (auto simp: Set_add_set)

lemma foldl_Set_add_distinct: "distinct s \<Longrightarrow> distinct (foldl Set_add s xs)"
  by (induction xs arbitrary: s) (simp_all add: Set_add_distinct)

lemma suggest_fold_set:
  "set (foldl (\<lambda>suggestedTags (keyword, tags').
                 if P keyword then foldl Set_add suggestedTags tags' else suggestedTags) acc kws)
   = set acc \<union> (\<Union>(keyword, tags') \<in> {(k, ts) \<in> set kws. P k}. set tags')"
proof (induction kws arbitrary: acc)
  case Nil
  then show ?case by simp
next
  case (Cons kw kws)
  obtain k ts where kw: "kw = (k, ts)" by (cases kw)
  show ?case
    unfolding kw by (simp add: Cons.IH foldl_Set_add_set) blast
qed

lemma suggest_fold_distinct:
  "distinct acc \<Longrightarrow>
   distinct (foldl (\<lambda>suggestedTags (keyword, tags').
                 if P keyword then foldl Set_add suggestedTags tags' else suggestedTags) acc kws)"
proof (induction kws arbitrary: acc)
  case Nil
  then show ?case by simp
next
  case (Cons kw kws)
  obtain k ts where kw: "kw = (k, ts)" by (cases kw)
  show ?case
    unfolding kw using Cons.prems by (simp add: Cons.IH foldl_Set_add_distinct)
qed

lemma suggestTags_set:
  "set (suggestTags c) =
     (\<Union>(keyword, tags') \<in> {(k, ts) \<in> set keywords_obj. sublist k (toLowerCase c)}. set tags')"
  unfolding suggestTags_def Let_def includes_str_sublist
  by (simp only: suggest_fold_set) simp

lemma suggestTags_distinct: "distinct (suggestTags c)"
  unfolding suggestTags_def Let_def by (rule suggest_fold_distinct) simp

text \<open>
  C3: the trigger keywords are meeting, task, idea, research and project; for every
  content, the suggested tags are the union of the tag lists of exactly those keywords
  that occur in the lower-cased content as a substring (\<^const>\<open>sublist\<close>: a run of
  adjacent characters). The tags of "Team meeting notes" contain "meetings" and
  "work"; "no keywords here" gets no tag.
\<close>

theorem suggestTags_union:
  "map fst keywords_obj = [''meeting'', ''task'', ''idea'', ''research'', ''project'']
   \<and> set (suggestTags c) =
     (\<Union>(keyword, tags') \<in> {(k, ts) \<in> set keywords_obj. sublist k (toLowerCase c)}. set tags')
   \<and> {''meetings'', ''work''} \<subseteq> set (suggestTags ''Team meeting notes'')
   \<and> suggestTags ''no keywords here'' = []"
proof -
  have k: "map fst keywords_obj = [''meeting'', ''task'', ''idea'', ''research'', ''project'']"
    by (simp add: keywords_obj_def)
  have a: "suggestTags ''Team meeting notes'' = [''meetings'', ''work'']" by code_simp
  have b: "suggestTags ''no keywords here'' = []" by code_simp
  have a': "{''meetings'', ''work''} \<subseteq> set (suggestTags ''Team meeting notes'')"
    unfolding a by simp
  from k suggestTags_set[of c] a' b show ?thesis by (intro conjI)
qed

text \<open>
  C10: whatever the content, every suggested tag is one of the nine tags of the keyword
  table, and the returned array lists no tag twice.
\<close>

theorem suggestTags_vocabulary:
  "set (suggestTags c) \<subseteq>
     {''meetings'', ''work'', ''tasks'', ''todo'', ''ideas'', ''creativity'', ''research'',
      ''learning'', ''projects''}
   \<and> distinct (suggestTags c)"
proof -
  have "set (suggestTags c) \<subseteq> (\<Union>(keyword, tags') \<in> set keywords_obj. set tags')"
    unfolding suggestTags_set by blast
  also have "\<dots> \<subseteq> {''meetings'', ''work'', ''tasks'', ''todo'', ''ideas'', ''creativity'',
      ''research'', ''learning'', ''projects''}"
    by (simp add: keywords_obj_def)
  finally show ?thesis using suggestTags_distinct by simp
qed

section \<open>The query filter: properties\<close>

lemma matchesQuery_iff:
  "matchesQuery q sel n \<longleftrightarrow>
     (\<forall>t \<in> set (split_space (toLowerCase q)). sublist t (toLowerCase (content n)))
     \<and> (set sel = {} \<or> set (tags n) \<inter> set sel \<noteq> {})"
  unfolding matchesQuery_def Let_def includes_str_sublist includes_arr_def list_all_iff list_ex_iff
  by auto

text \<open>
  With terms separated by any whitespace, as the specification has it, the query
  "a<TAB>b" has the terms "a" and "b", both substrings of the content "a b", so that the
  note is to be returned. The program takes "a<TAB>b" for one term and returns nothing.
\<close>

theorem filteredNotes_whitespace_counterexample:
  "filteredNotes [ab_note] tab_phrase [] = [] \<and> spec_filter [ab_note] tab_phrase [] = [ab_note]"
  by code_simp

text \<open>
  C1 (as amended): for every sequence of notes, search query and selection of tags, the
  filter returns exactly the notes, in their order, for which every term of the
  lower-cased query is a substring of the lower-cased content, and the selection is empty
  or holds one of the note's tags. The terms are the pieces of the query between its
  space characters (U+0020); a tab or a line break is part of a term.
\<close>

theorem filteredNotes_exact:
  "filteredNotes ns searchQuery selectedTags =
     filter (\<lambda>n.
        (\<forall>t \<in> set (split_space (toLowerCase searchQuery)). sublist t (toLowerCase (content n)))
        \<and> (set selectedTags = {} \<or> set (tags n) \<inter> set selectedTags \<noteq> {})) ns"
  unfolding filteredNotes_def by (rule filter_cong) (simp_all add: matchesQuery_iff)

text \<open>
  The filter on the two fruit notes: the query "apple" keeps the first note, the tag
  "fruit" keeps both and the tag "unknown" none.
\<close>

theorem filteredNotes_exact_witness:
  "filteredNotes fruit_notes ''apple'' [] = [hd fruit_notes]
   \<and> filteredNotes fruit_notes '''' [''fruit''] = fruit_notes
   \<and> filteredNotes fruit_notes '''' [''unknown''] = []"
proof -
  have a: "filter (\<lambda>n.
        (\<forall>t \<in> set (split_space (toLowerCase ''apple'')). sublist t (toLowerCase (content n)))
        \<and> (set [] = {} \<or> set (tags n) \<inter> set [] \<noteq> {})) fruit_notes = [hd fruit_notes]"
    by code_simp
  have b: "filter (\<lambda>n.
        (\<forall>t \<in> set (split_space (toLowerCase '''')). sublist t (toLowerCase (content n)))
        \<and> (set [''fruit''] = {} \<or> set (tags n) \<inter> set [''fruit''] \<noteq> {})) fruit_notes = fruit_notes"
    by code_simp
  have c: "filter (\<lambda>n.
        (\<forall>t \<in> set (split_space (toLowerCase '''')). sublist t (toLowerCase (content n)))
        \<and> (set [''unknown''] = {} \<or> set (tags n) \<inter> set [''unknown''] \<noteq> {})) fruit_notes = []"
    by code_simp
  show ?thesis
    using a b c filteredNotes_exact[of fruit_notes "''apple''" "[]"]
      filteredNotes_exact[of fruit_notes "''''" "[''fruit'']"]
      filteredNotes_exact[of fruit_notes "''''" "[''unknown'']"]
    by (simp only:)
qed

text \<open>
  C7: with the empty query and no tag selected, the filter returns the notes unchanged.
\<close>

theorem filteredNotes_identity: "filteredNotes ns '''' [] = ns"
proof -
  have "matchesQuery '''' [] n" for n
    by (simp add: matchesQuery_def split_space_def toLowerCase_def includes_str_empty)
  then show ?thesis by (simp add: filteredNotes_def)
qed

section \<open>Related notes: properties\<close>

lemma isRelated_iff:
  "isRelated c n \<longleftrightarrow>
     (\<exists>w \<in> set (split_space (toLowerCase c)).
        length w > 4 \<and> w \<in> set (split_space (toLowerCase (content n))))"
  unfolding isRelated_def Let_def includes_arr_def length_greater_0_conv filter_empty_conv
  by auto

text \<open>
  With words separated by any whitespace, the two-line content "elephants", "are" has the
  word "elephants", which the note "elephants are huge" has too. The program takes both
  lines for one word and finds no related note.
\<close>

theorem findRelatedNotes_whitespace_counterexample:
  "findRelatedNotes [elephant_note] newline_content = []
   \<and> spec_findRelated newline_content [elephant_note] = [toPreview elephant_note]"
  by code_simp

text \<open>
  C2 (as amended): \<open>findRelatedNotes\<close> returns the previews of the first three
  notes, in their order, that share with the content a lower-cased word of more than
  four characters, and never more than three entries. The words are the pieces between
  space characters (U+0020); a tab or a line break is part of a word.
\<close>

theorem findRelatedNotes_first3:
  "findRelatedNotes ns c =
     map toPreview (take 3 (filter (\<lambda>n. \<exists>w \<in> set (split_space (toLowerCase c)).
        4 < length w \<and> w \<in> set (split_space (toLowerCase (content n)))) ns))
   \<and> length (findRelatedNotes ns c) \<le> 3"
proof -
  have "filter (isRelated c) ns =
        filter (\<lambda>n. \<exists>w \<in> set (split_space (toLowerCase c)).
          4 < length w \<and> w \<in> set (split_space (toLowerCase (content n)))) ns"
    by (rule filter_cong) (simp_all add: isRelated_iff)
  then show ?thesis by (simp add: findRelatedNotes_def)
qed

text \<open>
  Four notes share the word "elephants" with the content; the first three are returned.
\<close>

theorem findRelatedNotes_first3_witness:
  "map id_rel (findRelatedNotes elephant_corpus ''I love elephants'') = [14, 13, 12]"
proof -
  have "map id_rel (map toPreview (take 3 (filter (\<lambda>n. \<exists>w \<in> set (split_space (toLowerCase ''I love elephants'')).
        4 < length w \<and> w \<in> set (split_space (toLowerCase (content n)))) elephant_corpus))) = [14, 13, 12]"
    by code_simp
  then show ?thesis
    using findRelatedNotes_first3[of elephant_corpus "''I love elephants''"] by (simp only:)
qed

text \<open>
  C8: every entry that \<open>findRelatedNotes\<close> returns carries the id of a related note
  of the corpus and, as its preview, the first 100 characters of that note's content
  followed by three dots; the dots are there also when the content has 100 characters or
  fewer, where the preview is the whole content followed by the dots.
\<close>

theorem findRelatedNotes_preview:
  "findRelatedNotes ns c =
     map (\<lambda>n. \<lparr>id_rel = id_note n, preview = take 100 (content n) @ ''...''\<rparr>)
       (take 3 (filter (isRelated c) ns))
   \<and> (\<forall>e \<in> set (findRelatedNotes ns c). \<exists>n \<in> set ns.
         isRelated c n \<and> id_rel e = id_note n \<and> preview e = take 100 (content n) @ ''...''
         \<and> (length (content n) \<le> 100 \<longrightarrow> preview e = content n @ ''...''))"
proof -
  have eq: "findRelatedNotes ns c =
     map (\<lambda>n. \<lparr>id_rel = id_note n, preview = take 100 (content n) @ ''...''\<rparr>)
       (take 3 (filter (isRelated c) ns))"
    unfolding findRelatedNotes_def using toPreview_def by presburger
  have "\<exists>n \<in> set ns.
         isRelated c n \<and> id_rel e = id_note n \<and> preview e = take 100 (content n) @ ''...''
         \<and> (length (content n) \<le> 100 \<longrightarrow> preview e = content n @ ''...'')"
    if e: "e \<in> set (findRelatedNotes ns c)" for e
  proof -
    from e obtain n where n: "n \<in> set (take 3 (filter (isRelated c) ns))" and en: "e = toPreview n"
      unfolding findRelatedNotes_def by auto
    from n have "n \<in> set (filter (isRelated c) ns)" by (rule in_set_takeD)
    then have "n \<in> set ns" "isRelated c n" by simp_all
    then show ?thesis unfolding en by (auto simp: toPreview_def)
  qed
  with eq show ?thesis by blast
qed

text \<open>
  The note "elephants are huge" is related to "I love elephants"; its preview ends in the
  dots although nothing was cut.
\<close>

theorem findRelatedNotes_preview_witness:
  "findRelatedNotes [elephant_note] ''I love elephants'' = [\<lparr>id_rel = 5, preview = ''elephants are huge...''\<rparr>]
   \<and> length (content elephant_note) \<le> 100"
proof -
  have a: "map (\<lambda>n. \<lparr>id_rel = id_note n, preview = take 100 (content n) @ ''...''\<rparr>)
       (take 3 (filter (isRelated ''I love elephants'') [elephant_note])) = [\<lparr>id_rel = 5, preview = ''elephants are huge...''\<rparr>]"
    by code_simp
  have b: "length (content elephant_note) \<le> 100" by code_simp
  from findRelatedNotes_preview[of "[elephant_note]" "''I love elephants''"]
  have "findRelatedNotes [elephant_note] ''I love elephants'' =
     map (\<lambda>n. \<lparr>id_rel = id_note n, preview = take 100 (content n) @ ''...''\<rparr>)
       (take 3 (filter (isRelated ''I love elephants'') [elephant_note]))" by (rule conjunct1)
  with a b show ?thesis by (simp only:)
qed

section \<open>Saving a note: properties\<close>

lemma trim_Nil_iff: "trim s = [] \<longleftrightarrow> list_all isWhiteSpace s"
proof -
  have "dropWhile isWhiteSpace s = []"
    if "\<forall>x \<in> set (dropWhile isWhiteSpace s). isWhiteSpace x"
  proof (rule ccontr)
    assume ne: "dropWhile isWhiteSpace s \<noteq> []"
    then have "\<not> isWhiteSpace (hd (dropWhile isWhiteSpace s))" by (rule hd_dropWhile)
    moreover from ne have "hd (dropWhile isWhiteSpace s) \<in> set (dropWhile isWhiteSpace s)"
      by (rule hd_in_set)
    ultimately show False using that by blast
  qed
  moreover have "\<forall>x \<in> set (dropWhile isWhiteSpace s). isWhiteSpace x"
    if e: "dropWhile isWhiteSpace s = []"
    unfolding e by simp
  ultimately have "(\<forall>x \<in> set (dropWhile isWhiteSpace s). isWhiteSpace x) \<longleftrightarrow> dropWhile isWhiteSpace s = []"
    by (rule iffI)
  then show ?thesis by (simp add: trim_def list_all_iff)
qed

text \<open>
  C9: when the current note is empty or has whitespace only, the save handler leaves the
  state as it is: no note is added, and nothing is written to \<open>localStorage\<close>.
\<close>

theorem handleNoteSave_blank:
  "list_all isWhiteSpace (currentNote st) \<Longrightarrow>
     handleNoteSave now isoString st = st \<and> onSave now isoString st = st"
  by (simp add: handleNoteSave_def onSave_def trim_Nil_iff)

text \<open>
  A current note of a space, a tab, a line break and a no-break space.
\<close>

theorem handleNoteSave_blank_witness:
  "list_all isWhiteSpace (currentNote blank_app)
   \<and> notes (onSave 1700000000000 ''2023-11-14T22:13:20.000Z'' blank_app) = fruit_notes
   \<and> localStorage (onSave 1700000000000 ''2023-11-14T22:13:20.000Z'' blank_app) = Map.empty"
proof -
  have h: "list_all isWhiteSpace (currentNote blank_app)" by code_simp
  from handleNoteSave_blank[OF h, of 1700000000000 "''2023-11-14T22:13:20.000Z''"]
  have "onSave 1700000000000 ''2023-11-14T22:13:20.000Z'' blank_app = blank_app" by (rule conjunct2)
  with h show ?thesis by (simp add: blank_app_def)
qed

lemma onSave_blank: "trim (currentNote st) = [] \<Longrightarrow> onSave now isoString st = st"
  by (simp add: onSave_def handleNoteSave_def)

lemma onSave_note:
  "trim (currentNote st) \<noteq> [] \<Longrightarrow>
     \<exists>n. notes (onSave now isoString st) = n # notes st \<and> id_note n = now
         \<and> currentNote (onSave now isoString st) = []"
  by (simp add: onSave_def handleNoteSave_def notesEffect_def Let_def)

lemma session_Cons: "session (e # evs) st = session evs (dispatch e st)"
  by (simp add: session_def)

lemma session_new_ids:
  "\<exists>new. notes (session evs st) = new @ notes st
         \<and> map id_note new = rev (saveClocks (currentNote st) evs)"
proof (induction evs arbitrary: st)
  case Nil
  then show ?case by (simp add: session_def)
next
  case (Cons e evs)
  show ?case
  proof (cases e)
    case (Typing s)
    from Cons.IH[of "st\<lparr>currentNote := s\<rparr>"] show ?thesis
      unfolding Typing session_Cons by simp
  next
    case (Save now isoString)
    show ?thesis
    proof (cases "trim (currentNote st) = []")
      case True
      with Cons.IH[of st] show ?thesis
        unfolding Save session_Cons by (simp add: onSave_blank)
    next
      case False
      let ?st' = "onSave now isoString st"
      from onSave_note[OF False, of now isoString] obtain n where
        n: "notes ?st' = n # notes st" and idn: "id_note n = now" and cur: "currentNote ?st' = []"
        by blast
      from Cons.IH[of ?st'] obtain new where
        new: "notes (session evs ?st') = new @ notes ?st'"
          "map id_note new = rev (saveClocks (currentNote ?st') evs)"
        by blast
      have "notes (session (e # evs) st) = (new @ [n]) @ notes st"
        unfolding Save session_Cons dispatch.simps new(1) n by simp
      moreover have "map id_note (new @ [n]) = rev (saveClocks (currentNote st) (e # evs))"
        unfolding Save using new(2) idn cur False by simp
      ultimately show ?thesis by blast
    qed
  qed
qed

lemma strictly_sorted_distinct: "sorted_wrt (<) (xs :: int list) \<Longrightarrow> distinct xs"
  by (induction xs) auto

text \<open>
  Two saves that read the same clock value give two notes with the same id.
\<close>

theorem session_ids_counterexample:
  "map id_note (notes (session same_clock_session empty_app)) = [1000, 1000]"
  by code_simp

text \<open>
  C4 (as amended): in every session the new notes stand before the old ones, and their
  ids are the values the clock had at their saves, the latest first (the clock is read
  at each save of a note that is not blank, and at no other). When these clock readings
  are strictly increasing and all above the ids of the notes the store starts with, and
  the starting ids are distinct, then the ids of the new notes fall from the head of
  the store, so rise in the order of creation, and no two notes of the store share an
  id.
\<close>

theorem session_ids_unique:
  "\<exists>new. notes (session evs st) = new @ notes st
         \<and> map id_note new = rev (saveClocks (currentNote st) evs)
         \<and> (sorted_wrt (<) (saveClocks (currentNote st) evs)
              \<and> (\<forall>n \<in> set (notes st). \<forall>t \<in> set (saveClocks (currentNote st) evs). id_note n < t)
              \<and> distinct (map id_note (notes st))
            \<longrightarrow> sorted_wrt (>) (map id_note new)
                \<and> distinct (map id_note (notes (session evs st))))"
proof -
  let ?clocks = "saveClocks (currentNote st) evs"
  from session_new_ids[of evs st] obtain new where
    new: "notes (session evs st) = new @ notes st" "map id_note new = rev ?clocks"
    by blast
  have "sorted_wrt (>) (map id_note new) \<and> distinct (map id_note (notes (session evs st)))"
    if s: "sorted_wrt (<) ?clocks"
      and above: "\<forall>n \<in> set (notes st). \<forall>t \<in> set ?clocks. id_note n < t"
      and old: "distinct (map id_note (notes st))"
  proof
    show "sorted_wrt (>) (map id_note new)"
      unfolding new(2) using s by (simp add: sorted_wrt_rev)
    have "distinct ?clocks" using s by (rule strictly_sorted_distinct)
    moreover have "set ?clocks \<inter> id_note ` set (notes st) = {}" using above by fastforce
    ultimately show "distinct (map id_note (notes (session evs st)))"
      unfolding new(1) map_append new(2) using old by simp
  qed
  with new show ?thesis by blast
qed

text \<open>
  A session on a store of two notes: a save, two saves of a blank note (the second after
  typing a space) that read no clock and add nothing, whatever the time, and another save.
\<close>

theorem session_ids_unique_witness:
  "saveClocks (currentNote stocked_app) rising_clock_session = [1000, 1001]
   \<and> map id_note (notes stocked_app) = [1, 2]
   \<and> map id_note (notes (session rising_clock_session stocked_app)) = [1001, 1000, 1, 2]
   \<and> distinct (map id_note (notes (session rising_clock_session stocked_app)))"
proof -
  have c: "saveClocks (currentNote stocked_app) rising_clock_session = [1000, 1001]" by code_simp
  have o: "map id_note (notes stocked_app) = [1, 2]" by code_simp
  have h1: "sorted_wrt (<) (saveClocks (currentNote stocked_app) rising_clock_session)"
    unfolding c by simp
  have h2: "\<forall>n \<in> set (notes stocked_app).
              \<forall>t \<in> set (saveClocks (currentNote stocked_app) rising_clock_session). id_note n < t"
    unfolding c by code_simp
  have h3: "distinct (map id_note (notes stocked_app))" unfolding o by simp
  from session_ids_unique[of rising_clock_session stocked_app] h1 h2 h3 obtain new where
    new: "notes (session rising_clock_session stocked_app) = new @ notes stocked_app"
      "map id_note new = rev (saveClocks (currentNote stocked_app) rising_clock_session)"
      and d: "distinct (map id_note (notes (session rising_clock_session stocked_app)))"
    by blast
  have "map id_note (notes (session rising_clock_session stocked_app)) = [1001, 1000, 1, 2]"
    unfolding new(1) map_append new(2) c o by simp
  with c o d show ?thesis by (intro conjI)
qed

section \<open>Loading the notes: properties\<close>

text \<open>
  C6: \<open>loadNotes\<close> never throws. When the key is missing it returns the empty array
  and reports nothing; when \<open>JSON.parse\<close> throws on the stored text it returns the
  empty array, and the error goes to the console only (the empty text is not even
  parsed). On every other stored text it returns what \<open>JSON.parse\<close> returns and
  reports nothing.
\<close>

theorem loadNotes_fails_soft:
  "(\<forall>e. fst (loadNotes storage console) \<noteq> Throws e)
   \<and> (getItem storage STORAGE_KEY = None \<longrightarrow>
        loadNotes storage console = (Returns (JArray []), console))
   \<and> (\<forall>saved e. getItem storage STORAGE_KEY = Some saved \<and> JSON_parse saved = Throws e \<longrightarrow>
        fst (loadNotes storage console) = Returns (JArray [])
        \<and> (saved \<noteq> [] \<longrightarrow> snd (loadNotes storage console) = console @ [(''Error loading notes:'', e)])
        \<and> (saved = [] \<longrightarrow> snd (loadNotes storage console) = console))
   \<and> (\<forall>saved. getItem storage STORAGE_KEY = Some saved \<and> saved \<noteq> []
                \<and> (\<forall>e. JSON_parse saved \<noteq> Throws e) \<longrightarrow>
        loadNotes storage console = (JSON_parse saved, console))"
  by (auto simp: loadNotes_def split: option.splits completion.splits)

text \<open>
  An empty storage, and storages whose text is cut off or has a gap: \<open>{broken\<close>,
  \<open>[1.5\<close>, \<open>1.\<close>, \<open>1e\<close> and \<open>[1,2,,3.0]\<close>. None of the texts parses, and each
  is answered with the empty array and one report. The texts \<open>[true]\<close> and
  \<open>[1.5]\<close> parse; what \<open>JSON.parse\<close> returns for them is returned, the second
  being an array that the model has no value for.
\<close>

theorem loadNotes_fails_soft_witness:
  "loadNotes Map.empty [] = (Returns (JArray []), [])
   \<and> map JSON_parse unparseable_texts = map (\<lambda>t. Throws SyntaxError) unparseable_texts
   \<and> map (\<lambda>t. loadNotes [STORAGE_KEY \<mapsto> t] []) unparseable_texts
       = map (\<lambda>t. (Returns (JArray []), [(''Error loading notes:'', SyntaxError)])) unparseable_texts
   \<and> loadNotes [STORAGE_KEY \<mapsto> ''[true]''] [] = (Returns (JArray [JBool True]), [])
   \<and> loadNotes [STORAGE_KEY \<mapsto> ''[1.5]''] [] = (Unmodelled, [])"
proof -
  have g0: "getItem Map.empty STORAGE_KEY = None" by (simp add: getItem_def)
  from loadNotes_fails_soft[of Map.empty "[]"] g0
  have a: "loadNotes Map.empty [] = (Returns (JArray []), [])" by blast
  have p: "map JSON_parse unparseable_texts = map (\<lambda>t. Throws SyntaxError) unparseable_texts"
    by code_simp
  have "loadNotes [STORAGE_KEY \<mapsto> t] [] = (Returns (JArray []), [(''Error loading notes:'', SyntaxError)])"
    if t: "t \<in> set unparseable_texts" for t
  proof -
    from p t have pt: "JSON_parse t = Throws SyntaxError" by (auto simp: map_eq_conv)
    from t have ne: "t \<noteq> []" by (auto simp: unparseable_texts_def)
    have g: "getItem [STORAGE_KEY \<mapsto> t] STORAGE_KEY = Some t" by (simp add: getItem_def)
    from loadNotes_fails_soft[of "[STORAGE_KEY \<mapsto> t]" "[]"] g pt ne
    have "fst (loadNotes [STORAGE_KEY \<mapsto> t] []) = Returns (JArray [])
          \<and> snd (loadNotes [STORAGE_KEY \<mapsto> t] []) = [] @ [(''Error loading notes:'', SyntaxError)]"
      by blast
    then show ?thesis by (simp add: prod_eq_iff)
  qed
  then have b: "map (\<lambda>t. loadNotes [STORAGE_KEY \<mapsto> t] []) unparseable_texts
       = map (\<lambda>t. (Returns (JArray []), [(''Error loading notes:'', SyntaxError)])) unparseable_texts"
    by (simp add: map_eq_conv)
  have q1: "JSON_parse ''[true]'' = Returns (JArray [JBool True])" by code_simp
  have q2: "JSON_parse ''[1.5]'' = Unmodelled" by code_simp
  have g1: "getItem [STORAGE_KEY \<mapsto> ''[true]''] STORAGE_KEY = Some ''[true]''"
    and g2: "getItem [STORAGE_KEY \<mapsto> ''[1.5]''] STORAGE_KEY = Some ''[1.5]''"
    by (simp_all add: getItem_def)
  from loadNotes_fails_soft[of "[STORAGE_KEY \<mapsto> ''[true]'']" "[]"] g1 q1
  have c: "loadNotes [STORAGE_KEY \<mapsto> ''[true]''] [] = (Returns (JArray [JBool True]), [])"
    by simp
  from loadNotes_fails_soft[of "[STORAGE_KEY \<mapsto> ''[1.5]'']" "[]"] g2 q2
  have d: "loadNotes [STORAGE_KEY \<mapsto> ''[1.5]''] [] = (Unmodelled, [])"
    by simp
  from a p b c d show ?thesis by (intro conjI)
qed

section \<open>JSON: the round trip\<close>

subsection \<open>Numbers\<close>

declare digitsOf.simps [simp del]

lemma digit_chars:
  "char_of (48 :: int) = CHR ''0''" "char_of (49 :: int) = CHR ''1''" "char_of (50 :: int) = CHR ''2''"
  "char_of (51 :: int) = CHR ''3''" "char_of (52 :: int) = CHR ''4''" "char_of (53 :: int) = CHR ''5''"
  "char_of (54 :: int) = CHR ''6''" "char_of (55 :: int) = CHR ''7''" "char_of (56 :: int) = CHR ''8''"
  "char_of (57 :: int) = CHR ''9''"
  by code_simp+

lemma digit_cases:
  "(0::int) \<le> d \<Longrightarrow> d < 10 \<Longrightarrow>
     d = 0 \<or> d = 1 \<or> d = 2 \<or> d = 3 \<or> d = 4 \<or> d = 5 \<or> d = 6 \<or> d = 7 \<or> d = 8 \<or> d = 9"
  by arith

lemma digit_char_props:
  assumes "(0::int) \<le> d" "d < 10"
  shows "isDigit (char_of (48 + d))" and "of_char (char_of (48 + d)) - 48 = d"
    and "char_of (48 + d) \<noteq> CHR ''-''"
    and "char_of (48 + d) = CHR ''0'' \<longleftrightarrow> d = 0"
  using digit_cases[OF assms] by (elim disjE; simp add: digit_chars isDigit_def)+

lemma digitsOf_small: "n < 10 \<Longrightarrow> digitsOf n = [char_of (48 + n)]"
  by (simp add: digitsOf.simps[of n])

lemma digitsOf_large: "\<not> n < 10 \<Longrightarrow> digitsOf n = digitsOf (n div 10) @ [char_of (48 + n mod 10)]"
  by (simp add: digitsOf.simps[of n])

lemma digitsOf_not_Nil: "digitsOf n \<noteq> []"
  by (cases "n < 10") (simp_all add: digitsOf_small digitsOf_large)

lemma digitsOf_digits: "0 \<le> n \<Longrightarrow> list_all isDigit (digitsOf n)"
proof (induction n rule: digitsOf.induct)
  case (1 n)
  show ?case
  proof (cases "n < 10")
    case True
    with "1.prems" show ?thesis by (simp add: digitsOf_small digit_char_props(1))
  next
    case False
    with "1.prems" have "list_all isDigit (digitsOf (n div 10))" by (intro "1.IH") simp_all
    moreover have "isDigit (char_of (48 + n mod 10))" by (rule digit_char_props(1)) simp_all
    ultimately show ?thesis using False by (simp add: digitsOf_large)
  qed
qed

lemma digitsVal_snoc: "digitsVal (ds @ [d]) = 10 * digitsVal ds + (of_char d - 48)"
  by (simp add: digitsVal_def)

lemma digitsVal_digitsOf: "0 \<le> n \<Longrightarrow> digitsVal (digitsOf n) = n"
proof (induction n rule: digitsOf.induct)
  case (1 n)
  show ?case
  proof (cases "n < 10")
    case True
    with "1.prems" show ?thesis
      using digitsVal_snoc[of "[]" "char_of (48 + n)"]
      by (simp add: digitsOf_small digit_char_props(2) digitsVal_def)
  next
    case False
    with "1.prems" have "digitsVal (digitsOf (n div 10)) = n div 10" by (intro "1.IH") simp_all
    moreover have "of_char (char_of (48 + n mod 10)) - 48 = n mod 10"
      by (rule digit_char_props(2)) simp_all
    ultimately show ?thesis using False by (simp add: digitsOf_large digitsVal_snoc)
  qed
qed

lemma digitsOf_hd: "1 \<le> n \<Longrightarrow> hd (digitsOf n) \<noteq> CHR ''0''"
proof (induction n rule: digitsOf.induct)
  case (1 n)
  show ?case
  proof (cases "n < 10")
    case True
    with "1.prems" show ?thesis by (simp add: digitsOf_small digit_char_props(4))
  next
    case False
    with "1.prems" have "hd (digitsOf (n div 10)) \<noteq> CHR ''0''" by (intro "1.IH") simp_all
    then show ?thesis using False by (simp add: digitsOf_large digitsOf_not_Nil)
  qed
qed

lemma digitsOf_no_leading_zero: "0 \<le> n \<Longrightarrow> \<not> (hd (digitsOf n) = CHR ''0'' \<and> tl (digitsOf n) \<noteq> [])"
proof (cases "n < 10")
  case True
  then show ?thesis by (simp add: digitsOf_small)
next
  case False
  then have "1 \<le> n" by simp
  then show ?thesis using digitsOf_hd by blast
qed

lemma isDigit_facts:
  "\<not> isDigit (CHR ''-'')" "\<not> isDigit (CHR '','')" "\<not> isDigit (CHR '']'')" "\<not> isDigit (CHR ''}'')"
  by (simp_all add: isDigit_def)

lemma digitsOf_hd_digit: "0 \<le> n \<Longrightarrow> isDigit (hd (digitsOf n))"
  using digitsOf_digits[of n] digitsOf_not_Nil[of n] by (cases "digitsOf n") simp_all

lemma takeWhile_dropWhile_append:
  assumes "list_all P xs" "ys = [] \<or> \<not> P (hd ys)"
  shows "takeWhile P (xs @ ys) = xs" and "dropWhile P (xs @ ys) = ys"
  using assms by (cases ys; simp add: list_all_iff takeWhile_append2 dropWhile_append2)+

lemma value_end_not_digit: "value_end rest \<Longrightarrow> rest = [] \<or> \<not> isDigit (hd rest)"
  by (auto simp: value_end_def isDigit_facts)

lemma value_end_no_fraction: "value_end rest \<Longrightarrow> lex_fraction rest = Some (False, rest)"
  by (auto simp: value_end_def lex_fraction_def)

lemma value_end_no_exponent: "value_end rest \<Longrightarrow> lex_exponent rest = Some (False, rest)"
  by (auto simp: value_end_def lex_exponent_def)

lemma lex_number_digits:
  assumes n: "0 \<le> n" "n \<le> MAX_SAFE_INTEGER" and rest: "value_end rest"
    and s: "s = (if neg then CHR ''-'' # digitsOf n @ rest else digitsOf n @ rest)"
  shows "lex_number s = Returns (TNumber (if neg then - n else n), rest)"
proof -
  have neg: "(s \<noteq> [] \<and> hd s = CHR ''-'') = neg"
    using digitsOf_hd_digit[OF n(1)] digitsOf_not_Nil[of n] isDigit_facts(1)
    unfolding s by (cases "digitsOf n") auto
  have r: "(if neg then tl s else s) = digitsOf n @ rest" unfolding s by simp
  have tw: "takeWhile isDigit (digitsOf n @ rest) = digitsOf n"
    and dw: "dropWhile isDigit (digitsOf n @ rest) = rest"
    using takeWhile_dropWhile_append[OF digitsOf_digits[OF n(1)] value_end_not_digit[OF rest]]
    by simp_all
  show ?thesis
    unfolding lex_number_def Let_def neg r tw dw
    using digitsOf_not_Nil[of n] digitsOf_no_leading_zero[OF n(1)] n(2)
    by (simp add: digitsVal_digitsOf[OF n(1)] value_end_no_fraction[OF rest]
          value_end_no_exponent[OF rest])
qed

lemma lex_number_NumberToString:
  assumes "\<bar>i\<bar> \<le> MAX_SAFE_INTEGER" "value_end rest"
  shows "lex_number (NumberToString i @ rest) = Returns (TNumber i, rest)"
proof (cases "i < 0")
  case True
  with assms show ?thesis
    using lex_number_digits[of "- i" rest "NumberToString i @ rest" True]
    by (simp add: NumberToString_def)
next
  case False
  with assms show ?thesis
    using lex_number_digits[of i rest "NumberToString i @ rest" False]
    by (simp add: NumberToString_def)
qed

subsection \<open>String literals\<close>

lemma hex_table: "map (\<lambda>d. hexVal (hexDigit d)) [0..<16] = map Some [0..<16]"
  by code_simp

lemma hexVal_hexDigit: "d < 16 \<Longrightarrow> hexVal (hexDigit d) = Some d"
proof -
  assume d: "d < 16"
  then have "map (\<lambda>d. hexVal (hexDigit d)) [0..<16] ! d = hexVal (hexDigit d)"
    by (simp del: upt_Suc)
  moreover from d have "map Some [0..<16] ! d = Some d" by (simp del: upt_Suc)
  ultimately show ?thesis by (simp only: hex_table)
qed

lemma hexVal_zero: "hexVal (CHR ''0'') = Some 0"
  by (simp add: hexVal_def)

lemma special_chars:
  "dquote \<noteq> backslash" "backslash \<noteq> dquote" "CHR ''u'' \<noteq> dquote" "CHR ''u'' \<noteq> backslash"
  "of_char dquote = (34::nat)" "of_char backslash = (92::nat)"
  by (simp_all add: dquote_def backslash_def)

lemma lex_string_escape:
  "e \<noteq> CHR ''u'' \<Longrightarrow> unescape e = Some x \<Longrightarrow>
     lex_string (backslash # e # tail) = cons_char (Some x) (lex_string tail)"
  by (simp add: special_chars)

lemma lex_string_unicode:
  assumes "hexVal h3 = Some a" "hexVal h4 = Some b"
  shows "lex_string (backslash # CHR ''u'' # CHR ''0'' # CHR ''0'' # h3 # h4 # tail)
         = cons_char (Some (char_of (16 * a + b))) (lex_string tail)"
  using assms by (simp add: special_chars hexVal_zero)

lemma lex_string_plain:
  "c \<noteq> dquote \<Longrightarrow> c \<noteq> backslash \<Longrightarrow> \<not> (of_char c :: nat) < 32 \<Longrightarrow>
     lex_string (c # tail) = cons_char (Some c) (lex_string tail)"
  by simp

lemma unescape_facts:
  "unescape (CHR ''b'') = Some (CHR 0x08)" "unescape (CHR ''t'') = Some (CHR 0x09)"
  "unescape (CHR ''n'') = Some (CHR 0x0A)" "unescape (CHR ''f'') = Some (CHR 0x0C)"
  "unescape (CHR ''r'') = Some (CHR 0x0D)" "unescape dquote = Some dquote"
  "unescape backslash = Some backslash"
  by (simp_all add: unescape_def dquote_def backslash_def)

lemma control_chars:
  "char_of (8::nat) = CHR 0x08" "char_of (9::nat) = CHR 0x09" "char_of (10::nat) = CHR 0x0A"
  "char_of (12::nat) = CHR 0x0C" "char_of (13::nat) = CHR 0x0D"
  by code_simp+

lemma lex_string_char: "lex_string (QuoteJSONChar c @ tail) = cons_char (Some c) (lex_string tail)"
proof -
  define n where "n = (of_char c :: nat)"
  have c: "c = char_of n" by (simp add: n_def)
  consider "n = 8" | "n = 9" | "n = 10" | "n = 12" | "n = 13" | "c = dquote" | "c = backslash"
    | "n < 32" "n \<noteq> 8" "n \<noteq> 9" "n \<noteq> 10" "n \<noteq> 12" "n \<noteq> 13"
    | "\<not> n < 32" "c \<noteq> dquote" "c \<noteq> backslash"
    by blast
  then show ?thesis
  proof cases
    case 1
    then have "c = CHR 0x08" using c by (simp add: control_chars)
    moreover have "QuoteJSONChar c = [backslash, CHR ''b'']"
      using 1 by (simp add: QuoteJSONChar_def n_def)
    ultimately show ?thesis using lex_string_escape[OF _ unescape_facts(1)] by simp
  next
    case 2
    then have "c = CHR 0x09" using c by (simp add: control_chars)
    moreover have "QuoteJSONChar c = [backslash, CHR ''t'']"
      using 2 by (simp add: QuoteJSONChar_def n_def)
    ultimately show ?thesis using lex_string_escape[OF _ unescape_facts(2)] by simp
  next
    case 3
    then have "c = CHR 0x0A" using c by (simp add: control_chars)
    moreover have "QuoteJSONChar c = [backslash, CHR ''n'']"
      using 3 by (simp add: QuoteJSONChar_def n_def)
    ultimately show ?thesis using lex_string_escape[OF _ unescape_facts(3)] by simp
  next
    case 4
    then have "c = CHR 0x0C" using c by (simp add: control_chars)
    moreover have "QuoteJSONChar c = [backslash, CHR ''f'']"
      using 4 by (simp add: QuoteJSONChar_def n_def)
    ultimately show ?thesis using lex_string_escape[OF _ unescape_facts(4)] by simp
  next
    case 5
    then have "c = CHR 0x0D" using c by (simp add: control_chars)
    moreover have "QuoteJSONChar c = [backslash, CHR ''r'']"
      using 5 by (simp add: QuoteJSONChar_def n_def)
    ultimately show ?thesis using lex_string_escape[OF _ unescape_facts(5)] by simp
  next
    case 6
    then have "QuoteJSONChar c = [backslash, dquote]"
      by (simp add: QuoteJSONChar_def special_chars)
    then show ?thesis using 6 lex_string_escape[OF special_chars(3)[symmetric] unescape_facts(6)] by simp
  next
    case 7
    then have "QuoteJSONChar c = [backslash, backslash]"
      by (simp add: QuoteJSONChar_def special_chars)
    then show ?thesis using 7 lex_string_escape[OF special_chars(4)[symmetric] unescape_facts(7)] by simp
  next
    case 8
    then have ne: "c \<noteq> dquote" "c \<noteq> backslash"
      using special_chars(5,6) n_def by auto
    have q: "QuoteJSONChar c =
       [backslash, CHR ''u'', CHR ''0'', CHR ''0'', hexDigit (n div 16), hexDigit (n mod 16)]"
      using 8 ne by (simp add: QuoteJSONChar_def n_def[symmetric] Let_def)
    have "n div 16 < 16" "n mod 16 < 16" using 8(1) by simp_all
    then have "hexVal (hexDigit (n div 16)) = Some (n div 16)" "hexVal (hexDigit (n mod 16)) = Some (n mod 16)"
      by (simp_all add: hexVal_hexDigit)
    then have "lex_string (QuoteJSONChar c @ tail) = cons_char (Some (char_of (16 * (n div 16) + n mod 16))) (lex_string tail)"
      unfolding q using lex_string_unicode by simp
    then show ?thesis using c by simp
  next
    case 9
    then have "QuoteJSONChar c = [c]"
      by (auto simp: QuoteJSONChar_def n_def[symmetric] Let_def)
    then show ?thesis using 9 lex_string_plain[of c tail] by (simp add: n_def)
  qed
qed

lemma lex_string_body:
  "lex_string (concat (map QuoteJSONChar s) @ dquote # rest) = Returns (map Some s, rest)"
proof (induction s)
  case Nil
  then show ?case by simp
next
  case (Cons c s)
  have "lex_string (concat (map QuoteJSONChar (c # s)) @ dquote # rest)
        = lex_string (QuoteJSONChar c @ (concat (map QuoteJSONChar s) @ dquote # rest))"
    by simp
  also have "\<dots> = cons_char (Some c) (lex_string (concat (map QuoteJSONChar s) @ dquote # rest))"
    by (rule lex_string_char)
  also have "\<dots> = Returns (map Some (c # s), rest)" by (simp add: Cons.IH cons_char_def)
  finally show ?case .
qed

subsection \<open>From the text to the tokens\<close>

lemma prepend_tokens_simps:
  "prepend_tokens [] r = r"
  "prepend_tokens (t # ts) r = cons_token t (prepend_tokens ts r)"
  "prepend_tokens (ts @ us) r = prepend_tokens ts (prepend_tokens us r)"
  by (simp_all add: prepend_tokens_def)

lemma prepend_tokens_Returns: "prepend_tokens ts (Returns us) = Returns (ts @ us)"
  by (induction ts) (simp_all add: prepend_tokens_simps cons_token_def)

lemma lex_structural:
  "lex (CHR ''['' # cs) = cons_token TLBracket (lex cs)"
  "lex (CHR '']'' # cs) = cons_token TRBracket (lex cs)"
  "lex (CHR ''{'' # cs) = cons_token TLBrace (lex cs)"
  "lex (CHR ''}'' # cs) = cons_token TRBrace (lex cs)"
  "lex (CHR '','' # cs) = cons_token TComma (lex cs)"
  "lex (CHR '':'' # cs) = cons_token TColon (lex cs)"
  by (simp_all add: isJSONWhiteSpace_def)

lemma lex_literals:
  "lex (''null'' @ rest) = cons_token TNull (lex rest)"
  "lex (''true'' @ rest) = cons_token TTrue (lex rest)"
  "lex (''false'' @ rest) = cons_token TFalse (lex rest)"
  by (simp_all add: isJSONWhiteSpace_def isDigit_def dquote_def)

lemma string_token_Some: "string_token (map Some s) = TString s"
proof -
  have "those (map Some s) = Some s" by (induction s) simp_all
  then show ?thesis by (simp add: string_token_def)
qed

lemma lex_QuoteJSONString: "lex (QuoteJSONString s @ rest) = cons_token (TString s) (lex rest)"
proof -
  have "lex (dquote # concat (map QuoteJSONChar s) @ dquote # rest) = cons_token (TString s) (lex rest)"
    unfolding lex.simps lex_string_body by (simp add: isJSONWhiteSpace_def dquote_def string_token_Some)
  then show ?thesis by (simp add: QuoteJSONString_def)
qed

lemma lex_number_start:
  assumes "c = CHR ''-'' \<or> isDigit c"
  shows "lex (c # cs) =
     (case lex_number (c # cs) of
        Returns (t, rest) \<Rightarrow> cons_token t (lex rest)
      | Throws e \<Rightarrow> Throws e
      | Unmodelled \<Rightarrow> Unmodelled)"
proof -
  have "\<not> isJSONWhiteSpace c" "c \<noteq> CHR ''[''" "c \<noteq> CHR '']''" "c \<noteq> CHR ''{''" "c \<noteq> CHR ''}''"
    "c \<noteq> CHR '',''" "c \<noteq> CHR '':''" "c \<noteq> dquote"
    using assms by (auto simp: isDigit_def isJSONWhiteSpace_def dquote_def)
  with assms show ?thesis by (simp del: prefix_code)
qed

lemma NumberToString_start:
  "\<exists>c cs. NumberToString i = c # cs \<and> (c = CHR ''-'' \<or> isDigit c)"
proof (cases "i < 0")
  case True
  then show ?thesis by (simp add: NumberToString_def)
next
  case False
  then have "isDigit (hd (digitsOf i))" by (intro digitsOf_hd_digit) simp
  with False show ?thesis
    using digitsOf_not_Nil[of i] by (cases "digitsOf i") (simp_all add: NumberToString_def)
qed

lemma lex_NumberToString:
  assumes "\<bar>i\<bar> \<le> MAX_SAFE_INTEGER" "value_end rest"
  shows "lex (NumberToString i @ rest) = cons_token (TNumber i) (lex rest)"
proof -
  from NumberToString_start[of i] obtain c cs where
    s: "NumberToString i = c # cs" and c: "c = CHR ''-'' \<or> isDigit c" by blast
  have "lex_number ((c # cs) @ rest) = Returns (TNumber i, rest)"
    using lex_number_NumberToString[OF assms] unfolding s .
  then show ?thesis
    unfolding s using lex_number_start[OF c, of "cs @ rest"] by simp
qed

lemma value_end_facts:
  "value_end []" "value_end (CHR '','' # cs)" "value_end (CHR '']'' # cs)" "value_end (CHR ''}'' # cs)"
  by (simp_all add: value_end_def)

lemma lex_join:
  assumes item: "\<And>x rest. x \<in> set xs \<Longrightarrow> value_end rest \<Longrightarrow>
            lex (pr x @ rest) = prepend_tokens (tk x) (lex rest)"
    and close: "value_end (c # rest)"
  shows "lex (join '','' (map pr xs) @ c # rest)
         = prepend_tokens (join [TComma] (map tk xs)) (lex (c # rest))"
  using item
proof (induction xs rule: induct_list012)
  case 1
  then show ?case by (simp add: prepend_tokens_simps)
next
  case (2 x)
  then show ?case using close by simp
next
  case (3 x y zs)
  have "lex (join '','' (map pr (x # y # zs)) @ c # rest)
        = lex (pr x @ CHR '','' # join '','' (map pr (y # zs)) @ c # rest)"
    by simp
  also have "\<dots> = prepend_tokens (tk x) (lex (CHR '','' # join '','' (map pr (y # zs)) @ c # rest))"
    by (rule "3.prems") (simp_all add: value_end_facts)
  also have "lex (CHR '','' # join '','' (map pr (y # zs)) @ c # rest)
        = cons_token TComma (lex (join '','' (map pr (y # zs)) @ c # rest))"
    by (rule lex_structural)
  also have "lex (join '','' (map pr (y # zs)) @ c # rest)
        = prepend_tokens (join [TComma] (map tk (y # zs))) (lex (c # rest))"
    by (rule "3.IH"(2)) (simp add: "3.prems")
  finally show ?case by (simp add: prepend_tokens_simps)
qed

lemma lex_stringify:
  "wf_json v \<Longrightarrow> value_end rest \<Longrightarrow>
     lex (JSON_stringify v @ rest) = prepend_tokens (tokens_of v) (lex rest)"
proof (induction v arbitrary: rest)
  case JNull
  then show ?case using lex_literals(1) by (simp add: prepend_tokens_simps)
next
  case (JBool b)
  then show ?case using lex_literals(2,3) by (simp add: prepend_tokens_simps)
next
  case (JNumber n)
  then show ?case using lex_NumberToString[of n rest] by (simp add: prepend_tokens_simps)
next
  case (JString s)
  then show ?case using lex_QuoteJSONString[of s rest] by (simp add: prepend_tokens_simps)
next
  case (JArray vs)
  have "lex (join '','' (map JSON_stringify vs) @ CHR '']'' # rest)
        = prepend_tokens (join [TComma] (map tokens_of vs)) (lex (CHR '']'' # rest))"
  proof (rule lex_join)
    fix x r assume "x \<in> set vs" "value_end r"
    then show "lex (JSON_stringify x @ r) = prepend_tokens (tokens_of x) (lex r)"
      using JArray.IH[of x r] JArray.prems(1) by (simp add: list_all_iff)
  qed (rule value_end_facts)
  then show ?case
    using lex_structural(1,2) by (simp add: prepend_tokens_simps)
next
  case (JObject ms)
  let ?pr = "\<lambda>m. QuoteJSONString (fst m) @ '':'' @ JSON_stringify (snd m)"
  let ?tk = "\<lambda>m. [TString (fst m), TColon] @ tokens_of (snd m)"
  have "lex (join '','' (map ?pr ms) @ CHR ''}'' # rest)
        = prepend_tokens (join [TComma] (map ?tk ms)) (lex (CHR ''}'' # rest))"
  proof (rule lex_join)
    fix m r assume m: "m \<in> set ms" and r: "value_end r"
    have "lex (JSON_stringify (snd m) @ r) = prepend_tokens (tokens_of (snd m)) (lex r)"
      using JObject.IH[of m "snd m" r] JObject.prems(1) m r
      by (cases m) (auto simp: list_all_iff)
    then show "lex (?pr m @ r) = prepend_tokens (?tk m) (lex r)"
      using lex_QuoteJSONString[of "fst m" "CHR '':'' # JSON_stringify (snd m) @ r"]
        lex_structural(6)[of "JSON_stringify (snd m) @ r"]
      by (simp add: prepend_tokens_simps)
  qed (rule value_end_facts)
  then show ?case
    using lex_structural(3,4) by (simp add: prepend_tokens_simps)
qed

subsection \<open>From the tokens to the value\<close>

lemma join_Cons: "join sep (x # xs) = x @ concat (map (\<lambda>y. sep @ y) xs)"
  by (induction xs arbitrary: x rule: induct_list012) simp_all

lemma update_fresh: "k \<notin> fst ` set al \<Longrightarrow> AList.update k v al = al @ [(k, v)]"
  by (induction al) auto

lemma tokens_of_hd: "tokens_of v \<noteq> [] \<and> hd (tokens_of v) \<noteq> TRBracket"
  by (cases v) simp_all

lemma run_ArrStart:
  "ts \<noteq> [] \<Longrightarrow> hd ts \<noteq> TRBracket \<Longrightarrow>
     run (ArrStart st) (ts @ rest) = run (ExpValue (InArr [] # st)) (ts @ rest)"
  by (cases ts) simp_all

lemma run_elements:
  assumes "\<And>w st rest. w \<in> set ws \<Longrightarrow>
             run (ExpValue st) (tokens_of w @ rest) = run (deliver w st) rest"
  shows "run (AfterElem acc st) (concat (map (\<lambda>w. [TComma] @ tokens_of w) ws) @ TRBracket # rest)
         = run (deliver (JArray (acc @ ws)) st) rest"
  using assms
proof (induction ws arbitrary: acc)
  case Nil
  then show ?case by simp
next
  case (Cons w ws)
  have "run (AfterElem acc st) (concat (map (\<lambda>w. [TComma] @ tokens_of w) (w # ws)) @ TRBracket # rest)
        = run (ExpValue (InArr acc # st))
            (tokens_of w @ concat (map (\<lambda>w. [TComma] @ tokens_of w) ws) @ TRBracket # rest)"
    by simp
  also have "\<dots> = run (deliver w (InArr acc # st))
            (concat (map (\<lambda>w. [TComma] @ tokens_of w) ws) @ TRBracket # rest)"
    by (rule Cons.prems) simp
  also have "\<dots> = run (deliver (JArray ((acc @ [w]) @ ws)) st) rest"
    unfolding deliver.simps by (rule Cons.IH) (simp add: Cons.prems)
  finally show ?case by simp
qed

lemma run_members:
  assumes "\<And>m st rest. m \<in> set ms \<Longrightarrow>
             run (ExpValue st) (tokens_of (snd m) @ rest) = run (deliver (snd m) st) rest"
    and "distinct (map fst (acc @ ms))"
  shows "run (AfterMember acc st)
           (concat (map (\<lambda>m. [TComma] @ ([TString (fst m), TColon] @ tokens_of (snd m))) ms)
            @ TRBrace # rest)
         = run (deliver (JObject (acc @ ms)) st) rest"
  using assms
proof (induction ms arbitrary: acc)
  case Nil
  then show ?case by simp
next
  case (Cons m ms)
  let ?tail = "concat (map (\<lambda>m. [TComma] @ ([TString (fst m), TColon] @ tokens_of (snd m))) ms)
               @ TRBrace # rest"
  have fresh: "fst m \<notin> fst ` set acc" using Cons.prems(2) by auto
  have "run (AfterMember acc st)
          (concat (map (\<lambda>m. [TComma] @ ([TString (fst m), TColon] @ tokens_of (snd m))) (m # ms))
           @ TRBrace # rest)
        = run (ExpValue (InObj acc (fst m) # st)) (tokens_of (snd m) @ ?tail)"
    by simp
  also have "\<dots> = run (deliver (snd m) (InObj acc (fst m) # st)) ?tail"
    by (rule Cons.prems(1)) simp
  also have "\<dots> = run (AfterMember (acc @ [m]) st) ?tail"
    using update_fresh[OF fresh, of "snd m"] by simp
  also have "\<dots> = run (deliver (JObject ((acc @ [m]) @ ms)) st) rest"
    by (rule Cons.IH) (use Cons.prems in simp_all)
  finally show ?case by simp
qed

lemma run_tokens_of:
  "wf_json v \<Longrightarrow> run (ExpValue st) (tokens_of v @ rest) = run (deliver v st) rest"
proof (induction v arbitrary: st rest)
  case JNull
  then show ?case by simp
next
  case (JBool b)
  then show ?case by simp
next
  case (JNumber n)
  then show ?case by simp
next
  case (JString s)
  then show ?case by simp
next
  case (JArray vs)
  have IH: "run (ExpValue st) (tokens_of w @ rest) = run (deliver w st) rest"
    if "w \<in> set vs" for w st rest
    using that JArray.IH[of w st rest] JArray.prems by (simp add: list_all_iff)
  show ?case
  proof (cases vs)
    case Nil
    then show ?thesis by simp
  next
    case (Cons w ws)
    let ?tail = "concat (map (\<lambda>w. [TComma] @ tokens_of w) ws) @ TRBracket # rest"
    have "run (ExpValue st) (tokens_of (JArray vs) @ rest) = run (ArrStart st) (tokens_of w @ ?tail)"
      unfolding Cons by (simp add: join_Cons comp_def)
    also have "\<dots> = run (ExpValue (InArr [] # st)) (tokens_of w @ ?tail)"
      using tokens_of_hd[of w] by (intro run_ArrStart) simp_all
    also have "\<dots> = run (deliver w (InArr [] # st)) ?tail"
      by (rule IH) (simp add: Cons)
    also have "\<dots> = run (deliver (JArray ([w] @ ws)) st) rest"
      unfolding deliver.simps append_Nil by (rule run_elements) (simp add: IH Cons)
    finally show ?thesis by (simp add: Cons)
  qed
next
  case (JObject ms)
  have IH: "run (ExpValue st) (tokens_of (snd m) @ rest) = run (deliver (snd m) st) rest"
    if "m \<in> set ms" for m st rest
  proof -
    obtain k v where m: "m = (k, v)" by (cases m)
    have "v \<in> Basic_BNFs.snds m" by (simp add: m)
    moreover have "wf_json v" using that JObject.prems by (auto simp: m list_all_iff)
    ultimately show ?thesis using JObject.IH[OF that, of v st rest] by (simp add: m)
  qed
  show ?case
  proof (cases ms)
    case Nil
    then show ?thesis by simp
  next
    case (Cons m ms')
    let ?tail = "concat (map (\<lambda>m. [TComma] @ ([TString (fst m), TColon] @ tokens_of (snd m))) ms')
                 @ TRBrace # rest"
    have "run (ExpValue st) (tokens_of (JObject ms) @ rest)
          = run (ExpValue (InObj [] (fst m) # st)) (tokens_of (snd m) @ ?tail)"
      unfolding Cons by (simp add: join_Cons comp_def)
    also have "\<dots> = run (deliver (snd m) (InObj [] (fst m) # st)) ?tail"
      by (rule IH) (simp add: Cons)
    also have "\<dots> = run (AfterMember [m] st) ?tail" by simp
    also have "\<dots> = run (deliver (JObject ([m] @ ms')) st) rest"
      by (rule run_members) (use JObject.prems Cons IH in simp_all)
    finally show ?thesis by (simp add: Cons)
  qed
qed

lemma modelled_facts:
  "modelled TLBracket" "modelled TRBracket" "modelled TLBrace" "modelled TRBrace"
  "modelled TComma" "modelled TColon" "modelled (TString s)" "modelled (TNumber n)"
  "modelled TTrue" "modelled TFalse" "modelled TNull"
  by (simp_all add: modelled_def)

lemma join_modelled:
  "(\<And>x. x \<in> set xs \<Longrightarrow> list_all modelled x) \<Longrightarrow> list_all modelled (join [TComma] xs)"
  by (induction xs rule: induct_list012) (simp_all add: modelled_facts)

lemma tokens_of_modelled: "list_all modelled (tokens_of v)"
proof (induction v)
  case (JArray vs)
  have "list_all modelled (join [TComma] (map tokens_of vs))"
    by (rule join_modelled) (auto simp: JArray.IH)
  then show ?case by (simp add: modelled_facts)
next
  case (JObject ms)
  let ?tk = "\<lambda>m. [TString (fst m), TColon] @ tokens_of (snd m)"
  have "list_all modelled (?tk m)" if "m \<in> set ms" for m
  proof -
    obtain k v where m: "m = (k, v)" by (cases m)
    have "v \<in> Basic_BNFs.snds m" by (simp add: m)
    then have "list_all modelled (tokens_of v)" using JObject.IH[OF that] by simp
    then show ?thesis by (simp add: m modelled_facts)
  qed
  then have "list_all modelled (join [TComma] (map ?tk ms))"
    by (intro join_modelled) auto
  then show ?case by (simp add: modelled_facts)
qed (simp_all add: modelled_facts)

lemma erase_modelled: "list_all modelled ts \<Longrightarrow> map erase ts = ts"
  by (induction ts) (simp_all add: erase_def modelled_def)

lemma JSON_parse_stringify: "wf_json v \<Longrightarrow> JSON_parse (JSON_stringify v) = Returns v"
proof -
  assume wf: "wf_json v"
  have "lex (JSON_stringify v @ []) = prepend_tokens (tokens_of v) (lex [])"
    using wf by (rule lex_stringify) (rule value_end_facts)
  then have "lex (JSON_stringify v) = Returns (tokens_of v)"
    by (simp add: prepend_tokens_Returns)
  moreover have "run (ExpValue []) (tokens_of v @ []) = run (deliver v []) []"
    using wf by (rule run_tokens_of)
  ultimately show ?thesis
    using tokens_of_modelled[of v] by (simp add: JSON_parse_def erase_modelled)
qed

section \<open>Saving and loading: the round trip\<close>

lemma wf_Related_to_json: "\<bar>id_rel r\<bar> \<le> MAX_SAFE_INTEGER \<Longrightarrow> wf_json (Related_to_json r)"
  by (simp add: Related_to_json_def)

lemma wf_Note_to_json: "wf_Note n \<Longrightarrow> wf_json (Note_to_json n)"
  by (simp add: Note_to_json_def wf_Note_def list_all_iff wf_Related_to_json)

lemma wf_Notes_to_json: "list_all wf_Note ns \<Longrightarrow> wf_json (Notes_to_json ns)"
  by (simp add: Notes_to_json_def list_all_iff wf_Note_to_json)

lemma Related_to_json_inj: "Related_to_json r = Related_to_json r' \<Longrightarrow> r = r'"
  by (simp add: Related_to_json_def)

lemma Note_to_json_inj: "Note_to_json n = Note_to_json n' \<Longrightarrow> n = n'"
proof -
  assume eq: "Note_to_json n = Note_to_json n'"
  then have "id_note n = id_note n'" "content n = content n'" "timestamp n = timestamp n'"
    and t: "map JString (tags n) = map JString (tags n')"
    and r: "map Related_to_json (related n) = map Related_to_json (related n')"
    by (simp_all add: Note_to_json_def)
  moreover from t have "tags n = tags n'" by (simp add: inj_def)
  moreover have "inj (map Related_to_json)" using Related_to_json_inj by (intro inj_mapI injI)
  then have "related n = related n'" using r by (rule injD)
  ultimately show ?thesis by simp
qed

lemma Notes_to_json_inj: "Notes_to_json ns = Notes_to_json ns' \<Longrightarrow> ns = ns'"
proof -
  assume "Notes_to_json ns = Notes_to_json ns'"
  then have eq: "map Note_to_json ns = map Note_to_json ns'" by (simp add: Notes_to_json_def)
  have "inj (map Note_to_json)" using Note_to_json_inj by (intro inj_mapI injI)
  then show ?thesis using eq by (rule injD)
qed

lemma JSON_stringify_Notes: "JSON_stringify (Notes_to_json ns) \<noteq> []"
  by (simp add: Notes_to_json_def)

text \<open>
  C5: for every sequence of well-formed notes (the ids of the notes and of their related
  entries are integers a double holds exactly), \<open>loadNotes\<close> after \<open>saveNotes\<close>
  returns the array that was saved and reports nothing; the notes read back are the notes
  saved, equal in id, content, timestamp, tags and related.
\<close>

theorem load_save_roundtrip:
  assumes "list_all wf_Note ns"
  shows "loadNotes (saveNotes (Notes_to_json ns) storage) console = (Returns (Notes_to_json ns), console)
         \<and> (\<forall>ns'. fst (loadNotes (saveNotes (Notes_to_json ns) storage) console) = Returns (Notes_to_json ns')
               \<longrightarrow> ns' = ns)"
proof -
  have "JSON_parse (JSON_stringify (Notes_to_json ns)) = Returns (Notes_to_json ns)"
    using assms by (intro JSON_parse_stringify wf_Notes_to_json)
  then have "loadNotes (saveNotes (Notes_to_json ns) storage) console = (Returns (Notes_to_json ns), console)"
    using JSON_stringify_Notes[of ns]
    by (simp add: loadNotes_def saveNotes_def getItem_def setItem_def)
  then show ?thesis using Notes_to_json_inj by auto
qed

text \<open>
  Two notes, the first with a quotation mark and a line break in its content, two tags and a
  related entry.
\<close>

theorem load_save_roundtrip_witness:
  "list_all wf_Note saved_notes
   \<and> loadNotes (saveNotes (Notes_to_json saved_notes) Map.empty) [] = (Returns (Notes_to_json saved_notes), [])"
proof -
  have h: "list_all wf_Note saved_notes" by code_simp
  from load_save_roundtrip[OF h, of Map.empty "[]"] h show ?thesis by blast
qed

end
